theory Spec2Isabelle
  imports Main "HOL-Library.Word" "HOL-Library.Sublist"
begin

unbundle bit_operations_syntax

section \<open>Data model\<close>

text \<open>
  The program is \<^verbatim>\<open>steg.py\<close>: least-significant-bit steganography on RGB images.

  \<^item> A Python \<^verbatim>\<open>str\<close> is a sequence of code points; a message is the list of its code
    points (\<^verbatim>\<open>ord\<close> of each character), which are unbounded naturals, so that
    characters above 255 exist in the model.
  \<^item> The program's binary strings are Python strings over the two characters
    \<^verbatim>\<open>'0'\<close> and \<^verbatim>\<open>'1'\<close>; they are lists of booleans here, \<open>True\<close> for \<^verbatim>\<open>'1'\<close>.
  \<^item> \<^verbatim>\<open>load_image\<close> converts every image to mode RGB, so a channel is an 8-bit value
    and a pixel is a triple (R, G, B).
  \<^item> An image has a width, a height and its pixel data in the order of
    \<^verbatim>\<open>Image.getdata()\<close>, which is row-major.
  Reading and writing image files (\<^verbatim>\<open>load_image\<close>, \<^verbatim>\<open>save\<close>) is outside the model:
  \<open>hide_data\<close> takes the loaded cover image and returns the image it would save.
\<close>

type_synonym message = "nat list"
type_synonym bits = "bool list"
type_synonym channel = "8 word"
type_synonym pixel = "channel \<times> channel \<times> channel"

record rgb_image =
  width :: nat
  height :: nat
  getdata :: "pixel list"

text \<open>What the imaging library guarantees of a loaded image.\<close>

definition wf_image :: "rgb_image \<Rightarrow> bool" where
  "wf_image img \<longleftrightarrow> length (getdata img) = width img * height img"

text \<open>The channels of a pixel list in scan order: R, G, B of each pixel in turn.\<close>

fun channels :: "pixel list \<Rightarrow> channel list" where
  "channels [] = []"
| "channels ((r, g, b) # ps) = r # g # b # channels ps"

text \<open>\<^verbatim>\<open>ord\<close> of each character of a string literal, for writing messages down.\<close>

definition ord_str :: "string \<Rightarrow> message" where
  "ord_str s = map of_char s"

text \<open>\<^verbatim>\<open>STOP_SIGNAL = "#####END#####"\<close>\<close>

definition STOP_SIGNAL :: message where
  "STOP_SIGNAL = ord_str ''#####END#####''"

section \<open>Text to bits\<close>

text \<open>
  The digits of Python's \<^verbatim>\<open>bin(n)\<close> after the prefix \<^verbatim>\<open>0b\<close>, which are also the digits
  of \<^verbatim>\<open>format(n, "b")\<close>: most significant first, no leading zero, \<^verbatim>\<open>"0"\<close> for zero.
\<close>

fun bin :: "nat \<Rightarrow> bits" where
  "bin n = (if n < 2 then [n = 1] else bin (n div 2) @ [n mod 2 = 1])"

declare bin.simps [simp del]

text \<open>
  \<^verbatim>\<open>format(n, "08b")\<close>: the binary digits, padded with zeros on the left up to a width of
  8. The width is a minimum: a longer digit string is not cut.
\<close>

definition format_08b :: "nat \<Rightarrow> bits" where
  "format_08b n = (let d = bin n in replicate (8 - length d) False @ d)"

text \<open>
  \<^verbatim>\<open>to_binary\<close> on a \<^verbatim>\<open>str\<close>, the only branch the program reaches:
  \<^verbatim>\<open>''.join([format(ord(i), "08b") for i in data])\<close>.
\<close>

definition to_binary :: "message \<Rightarrow> bits" where
  "to_binary data = concat (map format_08b data)"

text \<open>
  The \<open>k\<close>-bit big-endian representation of a value, as the specification words it:
  the most significant of the \<open>k\<close> low bits first, bit 0 last. A byte has 8 of them.
\<close>

definition big_endian :: "nat \<Rightarrow> nat \<Rightarrow> bits" where
  "big_endian k n = map (\<lambda>i. bit n (k - 1 - i)) [0..<k]"

definition byte_bits :: "nat \<Rightarrow> bits" where
  "byte_bits c = big_endian 8 c"

section \<open>Embedding\<close>

text \<open>\<^verbatim>\<open>(c & 0xFE) | int(bit)\<close>\<close>

definition set_lsb :: "channel \<Rightarrow> bool \<Rightarrow> channel" where
  "set_lsb c b = (c AND 0xFE) OR (if b then 1 else 0)"

text \<open>
  The loop of \<^verbatim>\<open>hide_data\<close> over \<^verbatim>\<open>pixels\<close>. Its state is \<^verbatim>\<open>data_index\<close> and
  \<^verbatim>\<open>new_pixels\<close>; the third argument is the part of \<^verbatim>\<open>pixels\<close> the loop has not yet
  visited. When the data is used up the loop appends \<^verbatim>\<open>pixels[len(new_pixels):]\<close> and
  breaks.
\<close>

fun hide_loop :: "bits \<Rightarrow> pixel list \<Rightarrow> pixel list \<Rightarrow> nat \<Rightarrow> pixel list \<Rightarrow> pixel list" where
  "hide_loop bsm pixels [] data_index new_pixels = new_pixels"
| "hide_loop bsm pixels ((r, g, b) # rest) data_index new_pixels =
     (let (new_r, i1) = (if data_index < length bsm
                         then (set_lsb r (bsm ! data_index), data_index + 1)
                         else (r, data_index));
          (new_g, i2) = (if i1 < length bsm then (set_lsb g (bsm ! i1), i1 + 1) else (g, i1));
          (new_b, i3) = (if i2 < length bsm then (set_lsb b (bsm ! i2), i2 + 1) else (b, i2));
          new_pixels' = new_pixels @ [(new_r, new_g, new_b)]
      in if i3 \<ge> length bsm
         then new_pixels' @ drop (length new_pixels') pixels
         else hide_loop bsm pixels rest i3 new_pixels')"

text \<open>
  The embedding pass as a whole: the loop started with \<^verbatim>\<open>data_index = 0\<close> and
  \<^verbatim>\<open>new_pixels = []\<close> on all pixels of the cover.
\<close>

definition embed_pixels :: "bits \<Rightarrow> pixel list \<Rightarrow> pixel list" where
  "embed_pixels bsm pixels = hide_loop bsm pixels pixels 0 []"

text \<open>
  What the specification asks of the embedding, on the channels in scan order: the
  \<open>k\<close>-th channel takes the \<open>k\<close>-th bit as its least significant bit while bits
  remain, and the channels after the last bit are kept.
\<close>

fun embed_channels :: "bits \<Rightarrow> channel list \<Rightarrow> channel list" where
  "embed_channels [] cs = cs"
| "embed_channels (b # bs) [] = []"
| "embed_channels (b # bs) (c # cs) = set_lsb c b # embed_channels bs cs"

text \<open>
  The failure of \<^verbatim>\<open>hide_data\<close> on a message too large for the image: it prints the
  required and the available number of bits and returns \<^verbatim>\<open>False\<close>.
\<close>

datatype error = CapacityError nat nat

definition hide_data :: "rgb_image \<Rightarrow> message \<Rightarrow> error + rgb_image" where
  "hide_data img secret_message =
     (let binary_secret_message = to_binary secret_message @ to_binary STOP_SIGNAL;
          max_capacity_bits = width img * height img * 3
      in if length binary_secret_message > max_capacity_bits
         then Inl (CapacityError (length binary_secret_message) max_capacity_bits)
         else Inr (img\<lparr>getdata := embed_pixels binary_secret_message (getdata img)\<rparr>))"

section \<open>Extraction\<close>

text \<open>
  Python slices with a negated length: \<^verbatim>\<open>s[-n:]\<close> is the last \<open>n\<close> characters and
  \<^verbatim>\<open>s[:-n]\<close> all but the last \<open>n\<close>; for \<open>n = 0\<close> they are \<^verbatim>\<open>s[0:]\<close> and \<^verbatim>\<open>s[:0]\<close>.
\<close>

definition slice_last :: "nat \<Rightarrow> 'a list \<Rightarrow> 'a list" where
  "slice_last n s = (if n = 0 then s else drop (length s - n) s)"

definition slice_butlast :: "nat \<Rightarrow> 'a list \<Rightarrow> 'a list" where
  "slice_butlast n s = (if n = 0 then [] else take (length s - n) s)"

text \<open>\<^verbatim>\<open>bin(c)[-1]\<close>: the last binary digit of a channel value.\<close>

definition lsb_digit :: "channel \<Rightarrow> bool" where
  "lsb_digit c = last (bin (unat c))"

text \<open>
  The scanning loop of \<^verbatim>\<open>extract_data\<close>: three bits are appended per pixel, then the
  last \<^verbatim>\<open>stop_signal_length\<close> bits are compared with the stop signal.
\<close>

fun extract_loop :: "bits \<Rightarrow> nat \<Rightarrow> bits \<Rightarrow> pixel list \<Rightarrow> bits" where
  "extract_loop stop_signal_binary stop_signal_length extracted [] = extracted"
| "extract_loop stop_signal_binary stop_signal_length extracted ((r, g, b) # rest) =
     (let extracted' = extracted @ [lsb_digit r] @ [lsb_digit g] @ [lsb_digit b]
      in if length extracted' \<ge> stop_signal_length \<and>
            slice_last stop_signal_length extracted' = stop_signal_binary
         then extracted'
         else extract_loop stop_signal_binary stop_signal_length extracted' rest)"

declare extract_loop.simps [simp del]

text \<open>
  The least significant bits of all channels in scan order: what a scan of the whole
  image reads.
\<close>

definition lsbs :: "pixel list \<Rightarrow> bits" where
  "lsbs ps = map lsb_digit (channels ps)"

text \<open>The bits the scan has accumulated when it stops.\<close>

definition scanned_bits :: "rgb_image \<Rightarrow> bits" where
  "scanned_bits stego_img =
     (let stop_signal_binary = to_binary STOP_SIGNAL
      in extract_loop stop_signal_binary (length stop_signal_binary) [] (getdata stego_img))"

text \<open>\<^verbatim>\<open>int(byte_binary, 2)\<close>\<close>

definition int_base2 :: "bits \<Rightarrow> nat" where
  "int_base2 bs = foldl (\<lambda>a b. 2 * a + (if b then 1 else 0)) 0 bs"

text \<open>The two warnings \<^verbatim>\<open>extract_data\<close> prints.\<close>

datatype warning = StopSignalNotFound | IncompleteByte bits

text \<open>
  The decoding loop \<^verbatim>\<open>for i in range(0, len(extracted_binary_data), 8)\<close>: a chunk of 8
  bits gives a character, a shorter last chunk gives a warning and no character.
\<close>

function decode_loop :: "bits \<Rightarrow> nat \<Rightarrow> message \<times> warning list" where
  "decode_loop extracted i =
     (if i < length extracted
      then (let byte_binary = take 8 (drop i extracted);
                (extracted_message, ws) = decode_loop extracted (i + 8)
            in if length byte_binary = 8
               then (int_base2 byte_binary # extracted_message, ws)
               else (extracted_message, IncompleteByte byte_binary # ws))
      else ([], []))"
  by pat_completeness auto
termination
  by (relation "measure (\<lambda>(extracted, i). length extracted - i)") auto

declare decode_loop.simps [simp del]

text \<open>
  The payload selection of \<^verbatim>\<open>extract_data\<close>: if the stop signal occurs anywhere in the
  scanned bits, the last \<^verbatim>\<open>stop_signal_length\<close> bits are cut off; otherwise a warning is
  printed and all scanned bits are kept.
\<close>

definition strip_stop_signal :: "bits \<Rightarrow> bits \<times> warning list" where
  "strip_stop_signal extracted =
     (let stop_signal_binary = to_binary STOP_SIGNAL;
          stop_signal_length = length stop_signal_binary
      in if sublist stop_signal_binary extracted
         then (slice_butlast stop_signal_length extracted, [])
         else (extracted, [StopSignalNotFound]))"

text \<open>
  The result of \<^verbatim>\<open>extract_data\<close>: the returned text and the warnings printed on the way.
  The \<^verbatim>\<open>except\<close> branches that return \<^verbatim>\<open>None\<close> are unreachable, since every chunk
  handed to \<^verbatim>\<open>int(_, 2)\<close> consists of 8 binary digits and \<^verbatim>\<open>chr\<close> accepts 0 to 255.
\<close>

record extraction =
  extracted_message :: message
  warnings :: "warning list"

definition extract_data :: "rgb_image \<Rightarrow> extraction" where
  "extract_data stego_img =
     (let (payload, ws1) = strip_stop_signal (scanned_bits stego_img);
          (msg, ws2) = decode_loop payload 0
      in \<lparr>extracted_message = msg, warnings = ws1 @ ws2\<rparr>)"

text \<open>
  The test at the end of \<^verbatim>\<open>steg.py\<close>: hide the message, and if that succeeded extract
  from the image written.
\<close>

definition hide_then_extract :: "rgb_image \<Rightarrow> message \<Rightarrow> error + extraction" where
  "hide_then_extract cover_img test_message =
     (case hide_data cover_img test_message of
        Inl e \<Rightarrow> Inl e
      | Inr stego_img \<Rightarrow> Inr (extract_data stego_img))"

text \<open>
  What the specification asks of decoding: the bits are cut into consecutive chunks of 8
  in order and each chunk is read as a character; a shorter last chunk gives no
  character, only a warning.
\<close>

definition byte_chunks :: "bits \<Rightarrow> message" where
  "byte_chunks d = map (\<lambda>j. int_base2 (take 8 (drop (8 * j) d))) [0..<length d div 8]"

definition trailing_bits_warning :: "bits \<Rightarrow> warning list" where
  "trailing_bits_warning d =
     (if length d mod 8 = 0 then [] else [IncompleteByte (drop (8 * (length d div 8)) d)])"

section \<open>Example inputs\<close>

text \<open>An all-black cover image of the given size.\<close>

definition black_cover :: "nat \<Rightarrow> nat \<Rightarrow> rgb_image" where
  "black_cover w h = \<lparr>width = w, height = h, getdata = replicate (w * h) (0, 0, 0)\<rparr>"

text \<open>The images \<^verbatim>\<open>hide_data\<close> writes for two short messages.\<close>

definition stego_a :: rgb_image where
  "stego_a = projr (hide_data (black_cover 40 1) (ord_str ''a''))"

definition stego_abcd :: rgb_image where
  "stego_abcd = projr (hide_data (black_cover 8 6) (ord_str ''abcd''))"

text \<open>A cover of four pixels with nothing embedded.\<close>

definition small_cover :: rgb_image where
  "small_cover = \<lparr>width = 2, height = 2,
     getdata = [(72, 105, 33), (1, 2, 3), (255, 254, 0), (9, 8, 7)]\<rparr>"

text \<open>
  The message of the test at the end of \<^verbatim>\<open>steg.py\<close> (\<^verbatim>\<open>test_message\<close>); code
  point 39 is its apostrophe.
\<close>

definition test_message :: message where
  "test_message =
     ord_str ''Hello, this is a secret test message for my steganography project. It'' @ [39] @
     ord_str ''s quite long to test capacity!''"

text \<open>Printable ASCII.\<close>

definition printable :: "nat \<Rightarrow> bool" where
  "printable c \<longleftrightarrow> 32 \<le> c \<and> c \<le> 126"

section \<open>Properties of the text encoding\<close>

lemma length_bin_pos: "0 < length (bin n)"
  by (subst bin.simps) simp

lemma last_bin: "last (bin n) = odd n"
  using less_2_cases[of n] by (subst bin.simps) (auto simp: mod_2_eq_odd)

lemma bin_lt2: "n < 2 \<Longrightarrow> bin n = [n = 1]"
  by (subst bin.simps) simp

lemma bin_ge2: "2 \<le> n \<Longrightarrow> bin n = bin (n div 2) @ [odd n]"
  by (subst bin.simps) (simp add: mod_2_eq_odd)

lemma length_bin_gt: "2 ^ k \<le> n \<Longrightarrow> k < length (bin n)"
proof (induction k arbitrary: n)
  case 0
  show ?case by (rule length_bin_pos)
next
  case (Suc k)
  from Suc.prems have p: "2 * 2 ^ k \<le> n" by simp
  have "0 < (2::nat) ^ k" by simp
  with p have "2 \<le> n" by linarith
  moreover from p have "2 ^ k \<le> n div 2" by auto
  ultimately have "2 \<le> n" "2 ^ k \<le> n div 2" .
  with Suc.IH show ?case by (simp add: bin_ge2)
qed

lemma big_endian_Suc: "big_endian (Suc k) n = big_endian k (n div 2) @ [odd n]"
  by (simp add: big_endian_def bit_0 bit_Suc Suc_diff_Suc flip: bit_Suc)

lemma pad_bin_big_endian:
  "n < 2 ^ Suc k \<Longrightarrow> replicate (Suc k - length (bin n)) False @ bin n = big_endian (Suc k) n"
proof (induction k arbitrary: n)
  case 0
  then show ?case using less_2_cases[of n] by (auto simp: bin_lt2 big_endian_def bit_0)
next
  case (Suc k)
  show ?case
  proof (cases "n < 2")
    case True
    then have "n div 2 = 0" by simp
    moreover have "replicate (Suc k - length (bin 0)) False @ bin 0 = big_endian (Suc k) 0"
      by (rule Suc.IH) simp
    ultimately have "big_endian (Suc k) (n div 2) = replicate (Suc k) False"
      by (simp add: bin_lt2 replicate_append_same)
    with True show ?thesis
      using less_2_cases[of n] by (auto simp: big_endian_Suc[of "Suc k"] bin_lt2)
  next
    case False
    then have ge: "2 \<le> n" by simp
    from Suc.prems have "n div 2 < 2 ^ Suc k" by auto
    from Suc.IH[OF this] ge show ?thesis
      by (simp add: big_endian_Suc[of "Suc k"] bin_ge2 Suc_diff_le)
  qed
qed

lemma format_08b_byte: "c < 256 \<Longrightarrow> format_08b c = byte_bits c"
  using pad_bin_big_endian[of c 7] by (simp add: format_08b_def byte_bits_def Let_def)

lemma length_format_08b: "c < 256 \<Longrightarrow> length (format_08b c) = 8"
  by (simp add: format_08b_byte byte_bits_def big_endian_def)

lemma length_format_08b_ge: "8 \<le> length (format_08b c)"
  by (simp add: format_08b_def Let_def)

lemma length_format_08b_wide: "256 \<le> c \<Longrightarrow> 8 < length (format_08b c)"
  using length_bin_gt[of 8 c] by (simp add: format_08b_def Let_def)

lemma to_binary_Nil: "to_binary [] = []"
  by (simp add: to_binary_def)

lemma to_binary_Cons: "to_binary (c # cs) = format_08b c @ to_binary cs"
  by (simp add: to_binary_def)

lemma to_binary_append: "to_binary (xs @ ys) = to_binary xs @ to_binary ys"
  by (simp add: to_binary_def)

text \<open>
  C3. For every text whose characters all have code points from 0 to 255, \<open>to_binary\<close>
  returns the concatenation, in character order, of the 8-bit big-endian representation
  of each character, and the result is exactly 8 times as long as the text.
\<close>

theorem to_binary_bytes:
  assumes "\<forall>c \<in> set msg. c \<le> 255"
  shows "to_binary msg = concat (map byte_bits msg) \<and> length (to_binary msg) = 8 * length msg"
  using assms
proof (induction msg)
  case Nil
  show ?case by (simp add: to_binary_Nil)
next
  case (Cons c cs)
  then have c: "c < 256" and cs: "\<forall>c \<in> set cs. c \<le> 255" by simp_all
  from Cons.IH[OF cs] have eq: "to_binary cs = concat (map byte_bits cs)"
    and len: "length (to_binary cs) = 8 * length cs" by blast+
  from c have "to_binary (c # cs) = concat (map byte_bits (c # cs))"
    by (simp add: to_binary_Cons format_08b_byte eq)
  moreover from c have "length (to_binary (c # cs)) = 8 * length (c # cs)"
    by (simp add: to_binary_Cons length_format_08b len)
  ultimately show ?case by simp
qed

theorem to_binary_bytes_witness:
  "to_binary [104, 105] = concat (map byte_bits [104, 105]) \<and>
   to_binary [104, 105] = [False, True, True, False, True, False, False, False,
                           False, True, True, False, True, False, False, True] \<and>
   length (to_binary [104, 105]) = 8 * length [104, 105::nat]"
  using to_binary_bytes[of "[104, 105]"] by code_simp

section \<open>Properties of the embedding\<close>

lemma channels_append: "channels (xs @ ys) = channels xs @ channels ys"
  by (induction xs rule: channels.induct) simp_all

lemma length_channels: "length (channels ps) = 3 * length ps"
  by (induction ps rule: channels.induct) simp_all

lemma embed_channels_Nil2: "embed_channels bs [] = []"
  by (cases bs) simp_all

lemma embed_channels_drop:
  "i < length bs \<Longrightarrow> embed_channels (drop i bs) (c # cs) = set_lsb c (bs ! i) # embed_channels (drop (Suc i) bs) cs"
  by (simp flip: Cons_nth_drop_Suc)

lemma hide_loop_channels:
  "rest = drop (length new_pixels) pixels \<Longrightarrow>
   channels (hide_loop bsm pixels rest i new_pixels) =
   channels new_pixels @ embed_channels (drop i bsm) (channels rest)"
proof (induction rest arbitrary: i new_pixels)
  case Nil
  show ?case by (simp add: embed_channels_Nil2)
next
  case (Cons p rest)
  obtain r g b where p: "p = (r, g, b)" by (cases p)
  from Cons.prems have rest: "rest = drop (length (new_pixels @ [q])) pixels" for q
    by (metis drop_Suc length_append_singleton list.sel(3) tl_drop)
  from rest[of p] have rest': "drop (Suc (length new_pixels)) pixels = rest" by simp
  show ?case
    unfolding p
    by (auto simp: Let_def channels_append Cons.IH[OF rest] embed_channels_drop rest' not_less)
qed


lemma channels_embed_pixels: "channels (embed_pixels bsm pixels) = embed_channels bsm (channels pixels)"
  by (simp add: embed_pixels_def hide_loop_channels)

lemma length_embed_channels: "length (embed_channels bs cs) = length cs"
  by (induction bs cs rule: embed_channels.induct) simp_all

lemma length_embed_pixels: "length (embed_pixels bsm pixels) = length pixels"
  using arg_cong[OF channels_embed_pixels, of length bsm pixels]
  by (simp add: length_channels length_embed_channels)

lemma drop_embed_channels: "drop (length bs) (embed_channels bs cs) = drop (length bs) cs"
  by (induction bs cs rule: embed_channels.induct) simp_all

lemma nth_embed_channels:
  "k < length bs \<Longrightarrow> k < length cs \<Longrightarrow> embed_channels bs cs ! k = set_lsb (cs ! k) (bs ! k)"
  by (induction bs cs arbitrary: k rule: embed_channels.induct) (simp_all add: nth_Cons split: nat.splits)

lemma nth_embed_channels_rest:
  "length bs \<le> k \<Longrightarrow> embed_channels bs cs ! k = cs ! k"
  by (induction bs cs arbitrary: k rule: embed_channels.induct) (simp_all add: nth_Cons split: nat.splits)

lemma set_lsb_high: "set_lsb c b AND 0xFE = c AND 0xFE"
  by (simp add: set_lsb_def bit.conj_disj_distrib2 and.assoc)

lemma odd_set_lsb: "odd (set_lsb c b) = b"
  by (simp add: set_lsb_def even_or_iff even_and_iff)

lemma lsb_digit_odd: "lsb_digit c = odd c"
proof -
  have "odd (unat c) = bit (unat c) 0" by (simp only: bit_0)
  also have "\<dots> = bit c 0" by (simp add: bit_unsigned_iff)
  also have "\<dots> = odd c" by (simp only: bit_0)
  finally show ?thesis by (simp add: lsb_digit_def last_bin)
qed

lemma lsb_digit_set_lsb: "lsb_digit (set_lsb c b) = b"
  by (simp only: lsb_digit_odd odd_set_lsb)


text \<open>
  C5. For every cover and every bitstream of length \<open>n\<close>, the output has as many
  channels as the cover, and all channels after the first \<open>n\<close> in scan order (row-major
  pixels, R then G then B within a pixel) are identical to the cover's.
\<close>

theorem excess_channels_unchanged:
  "length (channels (embed_pixels bs pixels)) = length (channels pixels) \<and>
   drop (length bs) (channels (embed_pixels bs pixels)) = drop (length bs) (channels pixels)"
  by (simp add: channels_embed_pixels length_embed_channels drop_embed_channels)

text \<open>
  C6. For every cover and every bitstream that fits its channels, and every index \<open>k\<close>
  below the number of bits, the \<open>k\<close>-th channel of the output in scan order is
  \<^verbatim>\<open>(original & 0xFE) | bits[k]\<close>; and every output channel agrees with its cover channel
  on all bits but the least significant one.
\<close>

theorem embedded_channel_lsb:
  assumes "length bs \<le> 3 * length pixels" and "k < length bs"
  shows "channels (embed_pixels bs pixels) ! k =
           (channels pixels ! k AND 0xFE) OR (if bs ! k then 1 else 0) \<and>
         (\<forall>j < 3 * length pixels.
            channels (embed_pixels bs pixels) ! j AND 0xFE = channels pixels ! j AND 0xFE)"
proof
  from assms have "k < length (channels pixels)" by (simp add: length_channels)
  with assms(2) show "channels (embed_pixels bs pixels) ! k =
      (channels pixels ! k AND 0xFE) OR (if bs ! k then 1 else 0)"
    by (simp add: channels_embed_pixels nth_embed_channels set_lsb_def)
next
  show "\<forall>j < 3 * length pixels.
      channels (embed_pixels bs pixels) ! j AND 0xFE = channels pixels ! j AND 0xFE"
  proof (intro allI impI)
    fix j assume "j < 3 * length pixels"
    then have j: "j < length (channels pixels)" by (simp add: length_channels)
    show "channels (embed_pixels bs pixels) ! j AND 0xFE = channels pixels ! j AND 0xFE"
    proof (cases "j < length bs")
      case True
      with j show ?thesis
        by (simp add: channels_embed_pixels nth_embed_channels set_lsb_high)
    next
      case False
      then show ?thesis
        by (simp add: channels_embed_pixels nth_embed_channels_rest)
    qed
  qed
qed

theorem embedded_channel_lsb_witness:
  "channels (embed_pixels [True, False, True, True] [(255, 0, 7), (8, 9, 10)]) ! 3 = (8 AND 0xFE) OR 1 \<and>
   channels (embed_pixels [True, False, True, True] [(255, 0, 7), (8, 9, 10)]) = [255, 0, 7, 9, 9, 10]"
proof -
  have "channels (embed_pixels [True, False, True, True] [(255, 0, 7), (8, 9, 10)]) ! 3 =
          (channels [(255, 0, 7), (8, 9, 10)] ! 3 AND 0xFE) OR
          (if [True, False, True, True] ! 3 then 1 else 0)"
    using embedded_channel_lsb[of "[True, False, True, True]" "[(255, 0, 7), (8, 9, 10)]" 3]
    by simp
  then show ?thesis by code_simp
qed

text \<open>
  C4. Embedding succeeds exactly when the bit length of message plus stop signal is at
  most \<^verbatim>\<open>width * height * 3\<close>; otherwise it fails with the capacity error, which
  carries the required and the available number of bits, and gives no image. The witness
  has a message that fills the capacity exactly and one that is one bit too long.
\<close>

theorem capacity_check:
  "hide_data img msg =
     (if length (to_binary msg) + length (to_binary STOP_SIGNAL) \<le> width img * height img * 3
      then Inr (img\<lparr>getdata := embed_pixels (to_binary msg @ to_binary STOP_SIGNAL) (getdata img)\<rparr>)
      else Inl (CapacityError (length (to_binary msg) + length (to_binary STOP_SIGNAL))
                  (width img * height img * 3)))"
  by (simp add: hide_data_def Let_def)

theorem capacity_check_witness:
  "length (to_binary (ord_str ''hi'')) + length (to_binary STOP_SIGNAL) = 120 \<and>
   width (black_cover 8 5) * height (black_cover 8 5) * 3 = 120 \<and>
   isl (hide_data (black_cover 8 5) (ord_str ''hi'')) = False \<and>
   length (to_binary (ord_str ''a'')) + length (to_binary STOP_SIGNAL) = 112 \<and>
   width (black_cover 37 1) * height (black_cover 37 1) * 3 = 111 \<and>
   hide_data (black_cover 37 1) (ord_str ''a'') = Inl (CapacityError 112 111)"
  using capacity_check[of "black_cover 8 5" "map of_char ''hi''"]
    capacity_check[of "black_cover 37 1" "map of_char ''a''"]
  by code_simp

lemma length_to_binary_ge: "8 * length msg \<le> length (to_binary msg)"
proof (induction msg)
  case Nil
  show ?case by (simp add: to_binary_Nil)
next
  case (Cons c cs)
  with length_format_08b_ge[of c] show ?case by (simp add: to_binary_Cons)
qed

lemma length_to_binary_wide:
  "\<exists>c \<in> set msg. 255 < c \<Longrightarrow> 8 * length msg < length (to_binary msg)"
proof (induction msg)
  case Nil
  then show ?case by simp
next
  case (Cons c cs)
  show ?case
  proof (cases "255 < c")
    case True
    then have "8 < length (format_08b c)" by (simp add: length_format_08b_wide)
    with length_to_binary_ge[of cs] show ?thesis by (simp add: to_binary_Cons)
  next
    case False
    with Cons.prems have "\<exists>c \<in> set cs. 255 < c" by simp
    from Cons.IH[OF this] length_format_08b_ge[of c] show ?thesis by (simp add: to_binary_Cons)
  qed
qed

section \<open>Properties of the extraction scan\<close>

lemma lsbs_Nil: "lsbs [] = []"
  by (simp add: lsbs_def)

lemma lsbs_Cons: "lsbs ((r, g, b) # ps) = lsb_digit r # lsb_digit g # lsb_digit b # lsbs ps"
  by (simp add: lsbs_def)

lemma length_lsbs: "length (lsbs ps) = 3 * length ps"
  by (simp add: lsbs_def length_channels)

lemma stop_signal_length: "length (to_binary STOP_SIGNAL) = 104"
  by code_simp

lemma slice_last_suffix:
  "0 < length stop \<Longrightarrow>
   (length stop \<le> length s \<and> slice_last (length stop) s = stop) \<longleftrightarrow> suffix stop s"
proof
  assume a: "length stop \<le> length s \<and> slice_last (length stop) s = stop"
  assume pos: "0 < length stop"
  from a pos have "drop (length s - length stop) s = stop" by (simp add: slice_last_def)
  then have "s = take (length s - length stop) s @ stop"
    by (metis append_take_drop_id)
  then show "suffix stop s" by (rule suffixI)
next
  assume "suffix stop s" and "0 < length stop"
  then show "length stop \<le> length s \<and> slice_last (length stop) s = stop"
    by (auto simp: slice_last_def suffix_def)
qed

lemma take3: "take (3 + n) (a # b # c # xs) = a # b # c # take n xs"
  by (simp add: numeral_3_eq_3)

lemma extract_loop_Nil: "extract_loop stop n acc [] = acc"
  by (simp add: extract_loop.simps)

lemma extract_loop_Cons:
  "extract_loop stop n acc ((r, g, b) # rest) =
     (if n \<le> length (acc @ [lsb_digit r, lsb_digit g, lsb_digit b]) \<and>
         slice_last n (acc @ [lsb_digit r, lsb_digit g, lsb_digit b]) = stop
      then acc @ [lsb_digit r, lsb_digit g, lsb_digit b]
      else extract_loop stop n (acc @ [lsb_digit r, lsb_digit g, lsb_digit b]) rest)"
  by (simp add: extract_loop.simps Let_def)

lemma extract_loop_step:
  "0 < length stop \<Longrightarrow>
   extract_loop stop (length stop) acc ((r, g, b) # rest) =
     (if suffix stop (acc @ [lsb_digit r, lsb_digit g, lsb_digit b])
      then acc @ [lsb_digit r, lsb_digit g, lsb_digit b]
      else extract_loop stop (length stop) (acc @ [lsb_digit r, lsb_digit g, lsb_digit b]) rest)"
  using slice_last_suffix[of stop "acc @ [lsb_digit r, lsb_digit g, lsb_digit b]"]
  by (simp only: extract_loop_Cons)

lemma extract_loop_prefix:
  "\<exists>k \<le> length ps. extract_loop stop n acc ps = acc @ take (3 * k) (lsbs ps)"
proof (induction ps arbitrary: acc)
  case Nil
  show ?case by (simp add: lsbs_Nil extract_loop_Nil)
next
  case (Cons p ps)
  obtain r g b where p: "p = (r, g, b)" by (cases p)
  let ?acc = "acc @ [lsb_digit r, lsb_digit g, lsb_digit b]"
  show ?case
  proof (cases "n \<le> length ?acc \<and> slice_last n ?acc = stop")
    case True
    then have "extract_loop stop n acc (p # ps) = acc @ take (3 * 1) (lsbs (p # ps))"
      unfolding p by (simp add: extract_loop_Cons lsbs_Cons take3[of 0, simplified])
    then show ?thesis by (intro exI[of _ 1]) simp
  next
    case False
    from Cons.IH[of ?acc] obtain k where k: "k \<le> length ps"
      and eq: "extract_loop stop n ?acc ps = ?acc @ take (3 * k) (lsbs ps)" by blast
    from False have "extract_loop stop n acc (p # ps) = extract_loop stop n ?acc ps"
      by (simp only: p extract_loop_Cons if_False)
    with eq have "extract_loop stop n acc (p # ps) = acc @ take (3 * Suc k) (lsbs (p # ps))"
      by (simp add: p lsbs_Cons take3)
    with k show ?thesis by (intro exI[of _ "Suc k"]) simp
  qed
qed

lemma extract_loop_no_stop:
  assumes "0 < length stop" and "\<not> sublist stop (acc @ lsbs ps)"
  shows "extract_loop stop (length stop) acc ps = acc @ lsbs ps"
  using assms(2)
proof (induction ps arbitrary: acc)
  case Nil
  show ?case by (simp add: lsbs_Nil extract_loop_Nil)
next
  case (Cons p ps)
  obtain r g b where p: "p = (r, g, b)" by (cases p)
  let ?acc = "acc @ [lsb_digit r, lsb_digit g, lsb_digit b]"
  from Cons.prems have no: "\<not> sublist stop (?acc @ lsbs ps)"
    by (simp add: p lsbs_Cons)
  then have "\<not> suffix stop ?acc"
    by (metis sublist_altdef prefixI)
  with Cons.IH[OF no] show ?case
    by (simp add: p extract_loop_step[OF assms(1)] lsbs_Cons)
qed

lemma extract_loop_first_match:
  assumes "0 < length stop"
  shows "0 < k \<Longrightarrow> k \<le> length ps \<Longrightarrow> suffix stop (acc @ take (3 * k) (lsbs ps)) \<Longrightarrow>
     (\<And>j. 0 < j \<Longrightarrow> j < k \<Longrightarrow> \<not> suffix stop (acc @ take (3 * j) (lsbs ps))) \<Longrightarrow>
     extract_loop stop (length stop) acc ps = acc @ take (3 * k) (lsbs ps)"
proof (induction ps arbitrary: acc k)
  case Nil
  then show ?case by simp
next
  case (Cons p ps)
  obtain r g b where p: "p = (r, g, b)" by (cases p)
  let ?acc = "acc @ [lsb_digit r, lsb_digit g, lsb_digit b]"
  have tk: "acc @ take (3 * Suc j) (lsbs (p # ps)) = ?acc @ take (3 * j) (lsbs ps)" for j
    by (simp add: p lsbs_Cons take3)
  show ?case
  proof (cases "k = 1")
    case True
    with Cons.prems(3) tk[of 0] show ?thesis
      by (simp add: p extract_loop_step[OF assms] lsbs_Cons)
  next
    case False
    with Cons.prems(1) obtain k' where k': "k = Suc k'" "0 < k'"
      by (cases k) auto
    from Cons.prems(4)[of 1] k' tk[of 0] have nomatch: "\<not> suffix stop ?acc" by simp
    have "extract_loop stop (length stop) ?acc ps = ?acc @ take (3 * k') (lsbs ps)"
    proof (rule Cons.IH)
      show "0 < k'" by (rule k')
      show "k' \<le> length ps" using Cons.prems(2) k' by simp
      show "suffix stop (?acc @ take (3 * k') (lsbs ps))"
        using Cons.prems(3) k' tk[of k'] by simp
      show "\<not> suffix stop (?acc @ take (3 * j) (lsbs ps))" if "0 < j" "j < k'" for j
        using Cons.prems(4)[of "Suc j"] that k' tk[of j] by simp
    qed
    with nomatch k' tk[of k'] show ?thesis
      by (simp add: p extract_loop_step[OF assms])
  qed
qed

text \<open>
  C10. For every image, the bits the scan has accumulated when it stops, by a match of
  the stop signal or at the end of the image, are the bits of a whole number of pixels:
  their number is a multiple of 3, since the loop appends three bits and only then
  compares.
\<close>

theorem scanned_bits_whole_pixels:
  "3 dvd length (scanned_bits img) \<and>
   (\<exists>k \<le> length (getdata img). scanned_bits img = take (3 * k) (lsbs (getdata img)))"
proof -
  obtain k where k: "k \<le> length (getdata img)"
    and eq: "scanned_bits img = take (3 * k) (lsbs (getdata img))"
    using extract_loop_prefix[of "getdata img" "to_binary STOP_SIGNAL" _ "[]"]
    by (auto simp: scanned_bits_def Let_def)
  from k have "length (scanned_bits img) = 3 * k"
    by (simp add: eq length_lsbs)
  with k eq show ?thesis by auto
qed

section \<open>Properties of decoding and of the round trip\<close>

lemma int_base2_snoc: "int_base2 (xs @ [b]) = 2 * int_base2 xs + (if b then 1 else 0)"
  by (simp add: int_base2_def)

lemma int_base2_bin: "int_base2 (bin n) = n"
proof (induction n rule: bin.induct)
  case (1 n)
  show ?case
  proof (cases "n < 2")
    case True
    then show ?thesis using less_2_cases[of n] by (auto simp: bin_lt2 int_base2_def)
  next
    case False
    with 1 have "int_base2 (bin (n div 2)) = n div 2" by simp
    with False show ?thesis
      by (simp add: bin_ge2 int_base2_snoc)
  qed
qed

lemma int_base2_zeros: "int_base2 (replicate k False @ xs) = int_base2 xs"
proof -
  have "foldl (\<lambda>a b. 2 * a + (if b then 1 else 0)) (0::nat) (replicate k False) = 0"
    by (induction k) simp_all
  then show ?thesis by (simp add: int_base2_def)
qed

lemma int_base2_format_08b: "int_base2 (format_08b c) = c"
  by (simp add: format_08b_def Let_def int_base2_zeros int_base2_bin)

lemma decode_loop_end: "length d \<le> i \<Longrightarrow> decode_loop d i = ([], [])"
  by (subst decode_loop.simps) simp

lemma decode_loop_byte:
  "i + 8 \<le> length d \<Longrightarrow>
   decode_loop d i = (int_base2 (take 8 (drop i d)) # fst (decode_loop d (i + 8)),
                      snd (decode_loop d (i + 8)))"
  by (subst decode_loop.simps) (simp add: Let_def split: prod.splits)

lemma decode_loop_short:
  "i < length d \<Longrightarrow> length d < i + 8 \<Longrightarrow>
   decode_loop d i = ([], [IncompleteByte (drop i d)])"
  by (subst decode_loop.simps) (simp add: Let_def decode_loop_end split: prod.splits)

lemma decode_loop_to_binary:
  "\<forall>c \<in> set msg. c < 256 \<Longrightarrow> decode_loop (pre @ to_binary msg) (length pre) = (msg, [])"
proof (induction msg arbitrary: pre)
  case Nil
  show ?case by (simp add: to_binary_Nil decode_loop_end)
next
  case (Cons c cs)
  then have c: "length (format_08b c) = 8" and cs: "\<forall>c \<in> set cs. c < 256"
    by (simp_all add: length_format_08b)
  from Cons.IH[OF cs, of "pre @ format_08b c"] c
  have rec: "decode_loop (pre @ format_08b c @ to_binary cs) (length pre + 8) = (cs, [])"
    by simp
  have "length pre + 8 \<le> length (pre @ format_08b c @ to_binary cs)"
    using c by simp
  from decode_loop_byte[OF this] rec c show ?case
    by (simp add: to_binary_Cons int_base2_format_08b)
qed

lemma decode_loop_chunks:
  "fst (decode_loop d i) =
     map (\<lambda>j. int_base2 (take 8 (drop (i + 8 * j) d))) [0..<(length d - i) div 8]"
proof (induction d i rule: decode_loop.induct)
  case (1 d i)
  consider "length d \<le> i" | "i < length d" "length d < i + 8" | "i + 8 \<le> length d"
    by linarith
  then show ?case
  proof cases
    case 1
    then show ?thesis by (simp add: decode_loop_end)
  next
    case 2
    then show ?thesis by (simp add: decode_loop_short)
  next
    case 3
    then have lt: "i < length d" by simp
    from 3 have "length d - i = (length d - (i + 8)) + 8" by simp
    then have "(length d - i) div 8 = Suc ((length d - (i + 8)) div 8)"
      by (simp only: div_add_self2)
    moreover from "1.IH"[OF lt refl]
    have "fst (decode_loop d (i + 8)) =
        map (\<lambda>j. int_base2 (take 8 (drop (i + 8 + 8 * j) d))) [0..<(length d - (i + 8)) div 8]"
      by simp
    ultimately show ?thesis
      by (simp add: decode_loop_byte[OF 3] upt_conv_Cons map_Suc_upt[symmetric] add.assoc
               del: upt_Suc)
  qed
qed


lemma decode_loop_warnings:
  "snd (decode_loop d i) =
     (if (length d - i) mod 8 = 0 then []
      else [IncompleteByte (drop (i + 8 * ((length d - i) div 8)) d)])"
proof (induction d i rule: decode_loop.induct)
  case (1 d i)
  consider "length d \<le> i" | "i < length d" "length d < i + 8" | "i + 8 \<le> length d"
    by linarith
  then show ?case
  proof cases
    case 1
    then show ?thesis by (simp add: decode_loop_end)
  next
    case 2
    then show ?thesis by (simp add: decode_loop_short)
  next
    case 3
    then have lt: "i < length d" by simp
    from 3 have split: "length d - i = (length d - (i + 8)) + 8" by simp
    have d: "(length d - i) div 8 = Suc ((length d - (i + 8)) div 8)"
      by (subst split) simp
    have m: "(length d - i) mod 8 = (length d - (i + 8)) mod 8"
      by (subst split) simp
    from "1.IH"[OF lt refl] show ?thesis
      by (simp add: decode_loop_byte[OF 3] d m add.assoc)
  qed
qed

lemma decode_loop_0:
  "decode_loop d 0 = (byte_chunks d, trailing_bits_warning d)"
  using decode_loop_chunks[of d 0] decode_loop_warnings[of d 0]
  by (simp add: byte_chunks_def trailing_bits_warning_def prod_eq_iff)

text \<open>
  C9. For every image whose least significant bits in scan order nowhere contain the
  stop signal, extraction scans the whole image, does not fail, and returns the text
  decoded from all bits read, together with the warning that the stop signal was not
  found (and the warning for a trailing incomplete byte, if there is one).
\<close>

theorem no_stop_signal_scans_all:
  assumes "\<not> sublist (to_binary STOP_SIGNAL) (lsbs (getdata img))"
  shows "scanned_bits img = lsbs (getdata img) \<and>
         length (scanned_bits img) = 3 * length (getdata img) \<and>
         extract_data img =
           \<lparr>extracted_message = byte_chunks (lsbs (getdata img)),
            warnings = StopSignalNotFound # trailing_bits_warning (lsbs (getdata img))\<rparr>"
proof -
  have scan: "scanned_bits img = lsbs (getdata img)"
    using extract_loop_no_stop[of "to_binary STOP_SIGNAL" "[]" "getdata img"] assms
    by (simp add: scanned_bits_def Let_def stop_signal_length)
  moreover have "strip_stop_signal (lsbs (getdata img)) = (lsbs (getdata img), [StopSignalNotFound])"
    using assms by (simp add: strip_stop_signal_def Let_def)
  ultimately show ?thesis
    by (simp add: extract_data_def decode_loop_0 length_lsbs)
qed

theorem no_stop_signal_scans_all_witness:
  "scanned_bits small_cover = [False, True, True, True, False, True,
                               True, False, False, True, False, True] \<and>
   extract_data small_cover =
     \<lparr>extracted_message = [118],
      warnings = [StopSignalNotFound, IncompleteByte [False, True, False, True]]\<rparr>"
  using no_stop_signal_scans_all[of small_cover]
  by code_simp

text \<open>
  C7 asks that the scan compares after every single bit and stops where the last bit of
  the stop signal was appended. The code compares only after the three bits of a pixel.
  For the message \<^verbatim>\<open>"a"\<close> in a black cover of 40 pixels the stop signal occupies bits 8
  to 111 of the stream, so its last bit is the first bit of pixel 38; the scan does not
  stop there but reads all 40 pixels, and what it has read does not end with the stop
  signal.
\<close>

theorem stop_signal_missed_mid_pixel:
  "hide_data (black_cover 40 1) (ord_str ''a'') = Inr stego_a \<and>
   take 104 (drop 8 (lsbs (getdata stego_a))) = to_binary STOP_SIGNAL \<and>
   length (getdata stego_a) = 40 \<and>
   length (scanned_bits stego_a) = 120 \<and>
   \<not> suffix (to_binary STOP_SIGNAL) (scanned_bits stego_a)"
  by code_simp

text \<open>
  C8 asks that the payload is the bits before the first occurrence of the stop signal.
  The code cuts off the last 104 bits whenever the stop signal occurs anywhere. For the
  message \<^verbatim>\<open>"abcd"\<close> in a black cover of 48 pixels the stop signal first occurs at bit
  32, after the 32 bits of the message, but the payload is the first 40 bits and the text
  returned is \<^verbatim>\<open>"abcd#"\<close>.
\<close>

theorem stop_signal_not_removed:
  "hide_data (black_cover 8 6) (ord_str ''abcd'') = Inr stego_abcd \<and>
   take 104 (drop 32 (scanned_bits stego_abcd)) = to_binary STOP_SIGNAL \<and>
   \<not> sublist (to_binary STOP_SIGNAL) (take 135 (scanned_bits stego_abcd)) \<and>
   take 32 (scanned_bits stego_abcd) = to_binary (ord_str ''abcd'') \<and>
   strip_stop_signal (scanned_bits stego_abcd) = (take 40 (scanned_bits stego_abcd), []) \<and>
   take 40 (scanned_bits stego_abcd) \<noteq> take 32 (scanned_bits stego_abcd) \<and>
   extract_data stego_abcd = \<lparr>extracted_message = ord_str ''abcd#'', warnings = []\<rparr>"
  by code_simp

text \<open>
  C1 asks that extraction returns every printable ASCII message that fits the cover,
  with no warning. The code does not: the message \<^verbatim>\<open>"hi!"\<close> fits a black cover of 10
  by 10 pixels (128 of 300 bits), but 128 is not a multiple of 3, the scan runs past the
  stop signal to the end of the image, and the text returned is the message, the stop
  signal and eight NUL characters, with a warning for the four bits left over.
\<close>

theorem round_trip_fails_unaligned:
  "list_all printable (ord_str ''hi!'') \<and>
   (length (ord_str ''hi!'') + length STOP_SIGNAL) * 8
     \<le> width (black_cover 10 10) * height (black_cover 10 10) * 3 \<and>
   hide_then_extract (black_cover 10 10) (ord_str ''hi!'') =
     Inr \<lparr>extracted_message = ord_str ''hi!#####END#####'' @ replicate 8 0,
          warnings = [IncompleteByte [False, False, False, False]]\<rparr> \<and>
   hide_then_extract (black_cover 10 10) (ord_str ''hi!'') \<noteq>
     Inr \<lparr>extracted_message = ord_str ''hi!'', warnings = []\<rparr>"
  by code_simp

text \<open>
  C2 asks that a message with a code point above 255 is rejected with an encoding error
  and nothing is written. The code does not check: \<open>to_binary\<close> gives code point 300
  nine digits, \<open>hide_data\<close> succeeds on the message \<open>[104, 300, 105]\<close>, and extraction
  from the image written returns \<open>[104, 150, 52]\<close> with a warning for one bit left over.
\<close>

theorem wide_character_not_rejected:
  "to_binary [300] = [True, False, False, True, False, True, True, False, False] \<and>
   isl (hide_data (black_cover 10 10) [104, 300, 105]) = False \<and>
   hide_then_extract (black_cover 10 10) [104, 300, 105] =
     Inr \<lparr>extracted_message = [104, 150, 52], warnings = [IncompleteByte [True]]\<rparr>"
  by code_simp

text \<open>
  A message that contains the stop signal is cut at it: there is no escaping.
\<close>

lemma stop_signal_in_message:
  "list_all printable (ord_str ''ab#####END#####'') \<and>
   hide_then_extract (black_cover 10 10) (ord_str ''ab#####END#####'') =
     Inr \<lparr>extracted_message = ord_str ''ab'', warnings = []\<rparr>"
  by code_simp

lemma length_to_binary:
  "\<forall>c \<in> set msg. c \<le> 255 \<Longrightarrow> length (to_binary msg) = 8 * length msg"
proof (induction msg)
  case Nil
  show ?case by (simp add: to_binary_Nil)
next
  case (Cons c cs)
  then have "length (format_08b c) = 8" by (simp add: length_format_08b)
  with Cons show ?case by (simp add: to_binary_Cons)
qed

lemma lsbs_embed_channels:
  "map lsb_digit (embed_channels bs cs) = take (length cs) bs @ drop (length bs) (map lsb_digit cs)"
  by (induction bs cs rule: embed_channels.induct) (simp_all add: lsb_digit_set_lsb)

lemma lsbs_embed_pixels:
  "length bs \<le> 3 * length pixels \<Longrightarrow>
   lsbs (embed_pixels bs pixels) = bs @ drop (length bs) (lsbs pixels)"
  by (simp add: lsbs_def channels_embed_pixels lsbs_embed_channels length_channels)

lemma length_STOP_SIGNAL: "length STOP_SIGNAL = 13"
  by (simp add: STOP_SIGNAL_def ord_str_def)

lemma no_early_suffix:
  assumes "\<not> sublist stop (butlast bs)" and "p < length bs"
  shows "\<not> suffix stop (take p bs)"
proof
  assume "suffix stop (take p bs)"
  moreover from assms(2) have "take p bs = take p (butlast bs)"
    by (simp add: take_butlast)
  ultimately have "suffix stop (take p (butlast bs))" by simp
  then have "sublist stop (butlast bs)"
    using take_is_prefix[of p "butlast bs"] by (auto simp: sublist_altdef)
  with assms(1) show False by contradiction
qed

lemma scan_finds_aligned_stop:
  assumes stop: "0 < length stop"
    and fits: "length (payload @ stop) \<le> 3 * length pixels"
    and aligned: "3 dvd length (payload @ stop)"
    and once: "\<not> sublist stop (butlast (payload @ stop))"
  shows "extract_loop stop (length stop) [] (embed_pixels (payload @ stop) pixels) = payload @ stop"
proof -
  let ?bs = "payload @ stop"
  let ?out = "embed_pixels ?bs pixels"
  from aligned obtain k where k: "length ?bs = 3 * k" by (auto simp: dvd_def)
  with stop have kpos: "0 < k" by (cases k) auto
  from k fits have kle: "k \<le> length ?out" by (simp add: length_embed_pixels)
  have stream: "lsbs ?out = ?bs @ drop (length ?bs) (lsbs pixels)"
    using fits by (rule lsbs_embed_pixels)
  have tk: "take (3 * j) (lsbs ?out) = take (3 * j) ?bs" if "j \<le> k" for j
    using that k by (simp add: stream)
  have "extract_loop stop (length stop) [] ?out = [] @ take (3 * k) (lsbs ?out)"
  proof (rule extract_loop_first_match[OF stop kpos kle])
    show "suffix stop ([] @ take (3 * k) (lsbs ?out))"
      using tk[of k] k by (simp add: suffix_def)
    show "\<not> suffix stop ([] @ take (3 * j) (lsbs ?out))" if "0 < j" "j < k" for j
      using no_early_suffix[OF once, of "3 * j"] that k tk[of j] by simp
  qed
  with tk[of k] k show ?thesis by simp
qed

text \<open>
  When the embedded bitstream ends on a pixel boundary and the stop signal occurs in it
  only at its end, the scan stops at the stop signal and the message comes back.
\<close>

lemma round_trip_aligned:
  assumes wf: "wf_image cover"
    and chars: "\<forall>c \<in> set msg. c \<le> 255"
    and cap: "(length msg + length STOP_SIGNAL) * 8 \<le> width cover * height cover * 3"
    and aligned: "3 dvd (length msg + length STOP_SIGNAL) * 8"
    and once: "\<not> sublist (to_binary STOP_SIGNAL) (butlast (to_binary msg @ to_binary STOP_SIGNAL))"
  shows "hide_then_extract cover msg = Inr \<lparr>extracted_message = msg, warnings = []\<rparr>"
proof -
  let ?stop = "to_binary STOP_SIGNAL"
  let ?bs = "to_binary msg @ ?stop"
  let ?stego = "cover\<lparr>getdata := embed_pixels ?bs (getdata cover)\<rparr>"
  from chars have len_msg: "length (to_binary msg) = 8 * length msg"
    by (rule length_to_binary)
  then have len: "length ?bs = (length msg + length STOP_SIGNAL) * 8"
    by (simp add: stop_signal_length length_STOP_SIGNAL)
  from cap len wf have fits: "length ?bs \<le> 3 * length (getdata cover)"
    by (simp add: wf_image_def)
  from cap len have hide: "hide_data cover msg = Inr ?stego"
    by (simp add: hide_data_def Let_def)
  have "extract_loop ?stop (length ?stop) [] (embed_pixels ?bs (getdata cover)) = ?bs"
  proof (rule scan_finds_aligned_stop)
    show "0 < length ?stop" by (simp add: stop_signal_length)
    show "length ?bs \<le> 3 * length (getdata cover)" by (rule fits)
    show "3 dvd length ?bs" using aligned len by simp
    show "\<not> sublist ?stop (butlast ?bs)" by (rule once)
  qed
  then have scan: "scanned_bits ?stego = ?bs"
    by (simp add: scanned_bits_def Let_def)
  have strip: "strip_stop_signal ?bs = (to_binary msg, [])"
    by (simp add: strip_stop_signal_def Let_def slice_butlast_def stop_signal_length)
  from chars have "\<forall>c \<in> set msg. c < 256" by auto
  from decode_loop_to_binary[OF this, of "[]"]
  have decode: "decode_loop (to_binary msg) 0 = (msg, [])" by simp
  have "extract_data ?stego = \<lparr>extracted_message = msg, warnings = []\<rparr>"
    by (simp add: extract_data_def scan strip decode)
  with hide show ?thesis by (simp add: hide_then_extract_def)
qed

lemma round_trip_aligned_example:
  "hide_then_extract (black_cover 10 10) (ord_str ''hi'') =
     Inr \<lparr>extracted_message = ord_str ''hi'', warnings = []\<rparr>"
proof (rule round_trip_aligned)
  show "wf_image (black_cover 10 10)"
    by (simp add: wf_image_def black_cover_def)
  show "\<forall>c \<in> set (ord_str ''hi''). c \<le> 255"
    by (simp add: ord_str_def)
  show "(length (ord_str ''hi'') + length STOP_SIGNAL) * 8
      \<le> width (black_cover 10 10) * height (black_cover 10 10) * 3"
    by (simp add: ord_str_def length_STOP_SIGNAL black_cover_def)
  show "3 dvd (length (ord_str ''hi'') + length STOP_SIGNAL) * 8"
    by (simp add: ord_str_def length_STOP_SIGNAL)
  show "\<not> sublist (to_binary STOP_SIGNAL)
      (butlast (to_binary (ord_str ''hi'') @ to_binary STOP_SIGNAL))"
    by code_simp
qed

text \<open>
  When the embedded bitstream does not end on a pixel boundary, the scan never stops at
  its end, whatever the cover. The message of the program's own test is such a message:
  100 characters, 904 bits with the stop signal.
\<close>

lemma scan_length_dvd3: "3 dvd length (extract_loop stop n [] ps)"
proof -
  obtain k where k: "k \<le> length ps"
    and eq: "extract_loop stop n [] ps = [] @ take (3 * k) (lsbs ps)"
    using extract_loop_prefix[of ps stop n "[]"] by blast
  from k have "length (extract_loop stop n [] ps) = 3 * k"
    by (simp add: eq length_lsbs)
  then show ?thesis by simp
qed

lemma unaligned_scan_overruns:
  assumes chars: "\<forall>c \<in> set msg. c \<le> 255"
    and unaligned: "\<not> 3 dvd (length msg + length STOP_SIGNAL) * 8"
  shows "scanned_bits stego \<noteq> to_binary msg @ to_binary STOP_SIGNAL"
proof
  assume eq: "scanned_bits stego = to_binary msg @ to_binary STOP_SIGNAL"
  have "3 dvd length (scanned_bits stego)"
    by (simp add: scanned_bits_def Let_def scan_length_dvd3)
  moreover from chars have "length (to_binary msg @ to_binary STOP_SIGNAL)
      = (length msg + length STOP_SIGNAL) * 8"
    by (simp add: length_to_binary stop_signal_length length_STOP_SIGNAL)
  ultimately show False using unaligned eq by simp
qed

lemma test_message_facts:
  "length test_message = 100 \<and> list_all printable test_message \<and>
   \<not> 3 dvd (length test_message + length STOP_SIGNAL) * 8"
  by code_simp

lemma self_test_scan_overruns:
  "scanned_bits stego \<noteq> to_binary test_message @ to_binary STOP_SIGNAL"
proof (rule unaligned_scan_overruns)
  show "\<forall>c \<in> set test_message. c \<le> 255"
    using test_message_facts by (auto simp: list_all_iff printable_def)
  show "\<not> 3 dvd (length test_message + length STOP_SIGNAL) * 8"
    using test_message_facts by blast
qed

end
